theory Spec2Isabelle
  imports Main "HOL-Library.Word"
begin

unbundle bit_operations_syntax

section \<open>Tokens (internal/token)\<close>

text \<open>
  Go: \<^verbatim>\<open>type Type = string\<close> with the six constants below, and
  \<^verbatim>\<open>type Token struct { Type Type; Literal string }\<close>.
  A Go string is a sequence of bytes; a HOL \<^typ>\<open>string\<close> is a list of 8-bit characters.
\<close>

type_synonym Type = string

definition EOF :: Type where "EOF = ''EOF''"
definition ILLEGAL :: Type where "ILLEGAL = ''ILLEGAL''"
definition NUMBER :: Type where "NUMBER = ''NUMBER''"
definition DASH :: Type where "DASH = ''DASH''"
definition ASTERISK :: Type where "ASTERISK = ''ASTERISK''"
definition COMMA :: Type where "COMMA = ''COMMA''"

record Token =
  Type :: Type
  Literal :: string

definition token_New :: "Type \<Rightarrow> string \<Rightarrow> Token" where
  "token_New tp lit = \<lparr>Type = tp, Literal = lit\<rparr>"

section \<open>Lexer (internal/lexer)\<close>

text \<open>
  The struct \<^verbatim>\<open>Lexer { input string; position int; readPosition int; ch byte }\<close>.
  Both positions only ever count upwards from 0, so they are natural numbers here.
\<close>

record Lexer =
  input :: string
  position :: nat
  readPosition :: nat
  ch :: char

definition nul :: char where
  "nul = CHR 0x00"

definition readChar :: "Lexer \<Rightarrow> Lexer" where
  "readChar lx =
     (let c = (if readPosition lx \<ge> length (input lx) then nul
               else input lx ! readPosition lx)
      in lx\<lparr>ch := c, position := readPosition lx, readPosition := readPosition lx + 1\<rparr>)"

definition lexer_New :: "string \<Rightarrow> Lexer" where
  "lexer_New s = readChar \<lparr>input = s, position = 0, readPosition = 0, ch = nul\<rparr>"

definition isDigit :: "char \<Rightarrow> bool" where
  "isDigit b \<longleftrightarrow> (of_char CHR ''0'' :: int) \<le> of_char b \<and> (of_char b :: int) \<le> of_char CHR ''9''"

text \<open>The loop \<^verbatim>\<open>for l.ch == ' ' { l.readChar() }\<close>.\<close>

function skipWhiteSpaces :: "Lexer \<Rightarrow> Lexer" where
  "skipWhiteSpaces lx = (if ch lx = CHR '' '' then skipWhiteSpaces (readChar lx) else lx)"
  by pat_completeness auto
termination
  by (relation "measure (\<lambda>lx. (if ch lx = CHR '' '' then 1 else 0) + (length (input lx) - readPosition lx))")
     (auto simp add: readChar_def Let_def nul_def)

declare skipWhiteSpaces.simps [simp del]

text \<open>The loop \<^verbatim>\<open>for isDigit(l.ch) { l.readChar() }\<close> of \<^verbatim>\<open>readNumber\<close>.\<close>

function readNumber_loop :: "Lexer \<Rightarrow> Lexer" where
  "readNumber_loop lx = (if isDigit (ch lx) then readNumber_loop (readChar lx) else lx)"
  by pat_completeness auto
termination
  by (relation "measure (\<lambda>lx. (if isDigit (ch lx) then 1 else 0) + (length (input lx) - readPosition lx))")
     (auto simp add: readChar_def Let_def nul_def isDigit_def)

declare readNumber_loop.simps [simp del]

text \<open>
  \<^verbatim>\<open>l.input[pos:l.position]\<close>: the bytes from index \<open>pos\<close> up to \<open>position\<close>.
  Go panics when the bounds of a slice expression are out of order or past the end. In
  the states a lexer goes through this does not happen (\<open>readNumber_in_bounds\<close> below),
  and \<open>take\<close> and \<open>drop\<close> give the same bytes there.
\<close>

definition readNumber :: "Lexer \<Rightarrow> string \<times> Lexer" where
  "readNumber lx =
     (let pos = position lx; lx' = readNumber_loop lx
      in (take (position lx' - pos) (drop pos (input lx')), lx'))"

text \<open>
  Go's conversion \<^verbatim>\<open>string(l.ch)\<close> of a byte gives the UTF-8 encoding of the code point
  with that number: one byte below 128, two bytes from 128 on.
\<close>

definition string_of_byte :: "char \<Rightarrow> string" where
  "string_of_byte c =
     (if (of_char c :: nat) < 128 then [c]
      else [char_of (192 + (of_char c :: nat) div 64), char_of (128 + (of_char c :: nat) mod 64)])"

definition NextToken :: "Lexer \<Rightarrow> Token \<times> Lexer" where
  "NextToken lx0 =
     (let lx = skipWhiteSpaces lx0 in
      if ch lx = CHR ''-'' then (token_New DASH (string_of_byte (ch lx)), readChar lx)
      else if ch lx = CHR ''*'' then (token_New ASTERISK (string_of_byte (ch lx)), readChar lx)
      else if ch lx = CHR '','' then (token_New COMMA (string_of_byte (ch lx)), readChar lx)
      else if ch lx = nul then (token_New EOF [], readChar lx)
      else if isDigit (ch lx) then (let (lit, lx') = readNumber lx in (token_New NUMBER lit, lx'))
      else (token_New ILLEGAL (string_of_byte (ch lx)), readChar lx))"

section \<open>Library functions used by the parsers\<close>

text \<open>The decimal value of a digit string, most significant digit first.\<close>

definition digit_val :: "char \<Rightarrow> int" where
  "digit_val c = of_char c - of_char CHR ''0''"

definition digits_val :: "string \<Rightarrow> int" where
  "digits_val ds = foldl (\<lambda>n c. n * 10 + digit_val c) 0 ds"

text \<open>
  Go's \<^verbatim>\<open>strconv.Atoi\<close> on a 64-bit platform: an optional sign, then at least one decimal
  digit and nothing else; a value outside the signed 64-bit range is an error. The parser
  below only asks whether an error came back, so the error is \<open>None\<close>.
\<close>

definition Atoi :: "string \<Rightarrow> int option" where
  "Atoi s =
     (let neg = (s \<noteq> [] \<and> hd s = CHR ''-'');
          ds = (if s \<noteq> [] \<and> (hd s = CHR ''-'' \<or> hd s = CHR ''+'') then tl s else s)
      in if ds = [] \<or> \<not> list_all isDigit ds then None
         else if neg then (if digits_val ds > 2 ^ 63 then None else Some (- digits_val ds))
         else (if digits_val ds \<ge> 2 ^ 63 then None else Some (digits_val ds)))"

section \<open>Interval parser (internal/parser)\<close>

type_synonym byte = "8 word"

text \<open>\<^verbatim>\<open>type Interval [2]byte\<close>: the pair of its two elements.\<close>

type_synonym Interval = "byte \<times> byte"

text \<open>
  \<^verbatim>\<open>type Parser struct { l *lexer.Lexer; errors []string; currToken, peekToken token.Token }\<close>.
  The lexer field is called \<open>lexer\<close> here. Every method that mutates the parser returns
  the new parser state next to its results.
\<close>

record Parser =
  lexer :: Lexer
  errors :: "string list"
  currToken :: Token
  peekToken :: Token

definition nextToken :: "Parser \<Rightarrow> Parser" where
  "nextToken p =
     (let (tok, lx) = NextToken (lexer p)
      in p\<lparr>currToken := peekToken p, peekToken := tok, lexer := lx\<rparr>)"

definition currTokenIs :: "Parser \<Rightarrow> Type \<Rightarrow> bool" where
  "currTokenIs p t \<longleftrightarrow> Type (currToken p) = t"

definition peekTokenIs :: "Parser \<Rightarrow> Type \<Rightarrow> bool" where
  "peekTokenIs p t \<longleftrightarrow> Type (peekToken p) = t"

definition currError :: "Parser \<Rightarrow> Type \<Rightarrow> Parser" where
  "currError p t =
     p\<lparr>errors := errors p @
        [''expected current token type is '' @ t @ '', found '' @ Type (currToken p)]\<rparr>"

definition expectCurrIs :: "Parser \<Rightarrow> Type \<Rightarrow> bool \<times> Parser" where
  "expectCurrIs p t =
     (if \<not> currTokenIs p t then (False, currError p t) else (True, nextToken p))"

definition numberParsingError :: "Parser \<Rightarrow> Parser" where
  "numberParsingError p =
     p\<lparr>errors := errors p @ [''numeric value '' @ Literal (currToken p) @ '' is not valid'']\<rparr>"

definition parseNumber :: "Parser \<Rightarrow> byte \<times> bool \<times> Parser" where
  "parseNumber p =
     (if \<not> currTokenIs p NUMBER then (0, False, currError p NUMBER)
      else case Atoi (Literal (currToken p)) of
             None \<Rightarrow> (0, False, numberParsingError p)
           | Some num \<Rightarrow>
               if num < 0 \<or> num > 255 then (0, False, numberParsingError p)
               else (word_of_int num, True, nextToken p))"

definition parseTerm :: "Parser \<Rightarrow> Interval \<times> bool \<times> Parser" where
  "parseTerm p =
     (if currTokenIs p ASTERISK then ((0, 255), True, nextToken p)
      else case parseNumber p of (start, ok, p1) \<Rightarrow>
        if \<not> ok then ((0, 0), False, numberParsingError p1)
        else if \<not> currTokenIs p1 DASH then ((start, start), True, p1)
        else case parseNumber (nextToken p1) of (end, ok2, p3) \<Rightarrow>
          if \<not> ok2 then ((0, 0), False, numberParsingError p3)
          else ((start, end), True, p3))"

subsection \<open>Every successful term consumes input\<close>

text \<open>
  The loop of \<^verbatim>\<open>parseExpr\<close> ends because the two lookahead tokens and the unread input
  shrink: \<open>remaining\<close> bounds the tokens the lexer can still produce that are not EOF.
\<close>

definition remaining :: "Lexer \<Rightarrow> nat" where
  "remaining lx = (length (input lx) - readPosition lx) + (if ch lx \<noteq> nul then 1 else 0)"

definition weight :: "Token \<Rightarrow> nat" where
  "weight t = (if Type t = EOF then 0 else 1)"

definition pending :: "Parser \<Rightarrow> nat" where
  "pending p = weight (currToken p) + weight (peekToken p) + remaining (lexer p)"

lemma remaining_readChar: "remaining (readChar lx) \<le> remaining lx"
  by (auto simp add: remaining_def readChar_def Let_def)

lemma remaining_readChar_less: "ch lx \<noteq> nul \<Longrightarrow> remaining (readChar lx) < remaining lx"
  by (auto simp add: remaining_def readChar_def Let_def)

lemma remaining_skipWhiteSpaces: "remaining (skipWhiteSpaces lx) \<le> remaining lx"
proof (induction lx rule: skipWhiteSpaces.induct)
  case (1 lx)
  show ?case
  proof (cases "ch lx = CHR '' ''")
    case True
    then have "remaining (skipWhiteSpaces lx) = remaining (skipWhiteSpaces (readChar lx))"
      by (simp add: skipWhiteSpaces.simps [of lx])
    also have "\<dots> \<le> remaining (readChar lx)" using "1.IH" [OF True] .
    also have "\<dots> \<le> remaining lx" by (rule remaining_readChar)
    finally show ?thesis .
  next
    case False
    then show ?thesis by (simp add: skipWhiteSpaces.simps [of lx])
  qed
qed

lemma isDigit_not_nul: "isDigit c \<Longrightarrow> c \<noteq> nul"
  by (auto simp add: isDigit_def nul_def)

lemma remaining_readNumber_loop: "remaining (readNumber_loop lx) \<le> remaining lx"
proof (induction lx rule: readNumber_loop.induct)
  case (1 lx)
  show ?case
  proof (cases "isDigit (ch lx)")
    case True
    then have "remaining (readNumber_loop lx) = remaining (readNumber_loop (readChar lx))"
      by (simp add: readNumber_loop.simps [of lx])
    also have "\<dots> \<le> remaining (readChar lx)" using "1.IH" [OF True] .
    also have "\<dots> \<le> remaining lx" by (rule remaining_readChar)
    finally show ?thesis .
  next
    case False
    then show ?thesis by (simp add: readNumber_loop.simps [of lx])
  qed
qed

lemma remaining_readNumber_loop_less:
  assumes "isDigit (ch lx)"
  shows "remaining (readNumber_loop lx) < remaining lx"
proof -
  have "remaining (readNumber_loop lx) = remaining (readNumber_loop (readChar lx))"
    using assms by (simp add: readNumber_loop.simps [of lx])
  also have "\<dots> \<le> remaining (readChar lx)" by (rule remaining_readNumber_loop)
  also have "\<dots> < remaining lx"
    using assms by (simp add: remaining_readChar_less isDigit_not_nul)
  finally show ?thesis .
qed

lemma remaining_NextToken:
  assumes "NextToken lx0 = (tok, lx')"
  shows "weight tok + remaining lx' \<le> remaining lx0"
proof -
  define lx where "lx = skipWhiteSpaces lx0"
  have le: "remaining lx \<le> remaining lx0"
    unfolding lx_def by (rule remaining_skipWhiteSpaces)
  have "weight tok + remaining lx' \<le> remaining lx"
  proof (cases "ch lx = nul")
    case True
    then have "tok = token_New EOF []" "lx' = readChar lx"
      using assms by (auto simp add: NextToken_def Let_def lx_def [symmetric] nul_def)
    then show ?thesis
      using remaining_readChar [of lx] by (simp add: weight_def token_New_def)
  next
    case False
    show ?thesis
    proof (cases "isDigit (ch lx) \<and> ch lx \<noteq> CHR ''-'' \<and> ch lx \<noteq> CHR ''*'' \<and> ch lx \<noteq> CHR '',''")
      case True
      then have "lx' = readNumber_loop lx"
        using assms False
        by (auto simp add: NextToken_def Let_def lx_def [symmetric] readNumber_def split: prod.splits)
      then show ?thesis
        using remaining_readNumber_loop_less [of lx] True by (simp add: weight_def)
    next
      case nd: False
      then have "lx' = readChar lx"
        using assms False
        by (auto simp add: NextToken_def Let_def lx_def [symmetric] split: if_splits)
      then show ?thesis
        using remaining_readChar_less [OF False] by (simp add: weight_def)
    qed
  qed
  with le show ?thesis by simp
qed

lemma pending_nextToken: "pending (nextToken p) + weight (currToken p) \<le> pending p"
proof -
  obtain tok lx where nt: "NextToken (lexer p) = (tok, lx)" by (cases "NextToken (lexer p)")
  from remaining_NextToken [OF nt] show ?thesis
    by (simp add: pending_def nextToken_def nt)
qed

lemma pending_nextToken_le: "pending (nextToken p) \<le> pending p"
  using pending_nextToken [of p] by simp

lemma pending_parseNumber:
  assumes "parseNumber p = (n, True, p')"
  shows "pending p' + weight (currToken p) \<le> pending p"
proof -
  from assms have "p' = nextToken p"
    by (auto simp add: parseNumber_def split: if_splits option.splits)
  then show ?thesis using pending_nextToken [of p] by simp
qed

lemma pending_parseTerm:
  assumes "parseTerm p = (it, True, p')" and "\<not> currTokenIs p EOF"
  shows "pending p' < pending p"
proof -
  have w: "weight (currToken p) = 1"
    using assms(2) by (simp add: weight_def currTokenIs_def)
  show ?thesis
  proof (cases "currTokenIs p ASTERISK")
    case True
    then have "p' = nextToken p" using assms(1) by (simp add: parseTerm_def)
    then show ?thesis using pending_nextToken [of p] w by simp
  next
    case False
    obtain start ok p1 where pn: "parseNumber p = (start, ok, p1)"
      by (cases "parseNumber p")
    have ok: "ok" using assms(1) False pn by (auto simp add: parseTerm_def split: if_splits)
    have p1: "pending p1 < pending p"
      using pending_parseNumber [of p start p1] pn ok w by simp
    show ?thesis
    proof (cases "currTokenIs p1 DASH")
      case d: False
      then have "p' = p1" using assms(1) False pn ok by (simp add: parseTerm_def)
      with p1 show ?thesis by simp
    next
      case d: True
      obtain e ok2 p3 where pn2: "parseNumber (nextToken p1) = (e, ok2, p3)"
        by (cases "parseNumber (nextToken p1)")
      have ok2: "ok2" and p3: "p' = p3"
        using assms(1) False pn ok d pn2 by (auto simp add: parseTerm_def split: if_splits)
      have "pending p3 \<le> pending (nextToken p1)"
        using pending_parseNumber [of "nextToken p1" e p3] pn2 ok2 by simp
      also have "\<dots> \<le> pending p1" by (rule pending_nextToken_le)
      finally show ?thesis using p1 p3 by simp
    qed
  qed
qed

lemma pending_expectCurrIs: "pending (snd (expectCurrIs p t)) \<le> pending p"
proof (cases "currTokenIs p t")
  case True
  then show ?thesis by (simp add: expectCurrIs_def pending_nextToken_le)
next
  case False
  then show ?thesis by (simp add: expectCurrIs_def currError_def pending_def)
qed

subsection \<open>The expression loop and \<open>Parse\<close>\<close>

text \<open>
  The loop \<^verbatim>\<open>for !p.currTokenIs(token.EOF) { ... }\<close> of \<^verbatim>\<open>parseExpr\<close>, with the
  slice \<open>intervals\<close> as accumulator. The result of \<^verbatim>\<open>expectCurrIs\<close> is dropped, as in
  the source.
\<close>

function parseExpr_loop :: "Parser \<Rightarrow> Interval list \<Rightarrow> Interval list \<times> bool \<times> Parser" where
  "parseExpr_loop p intervals =
     (if \<not> currTokenIs p EOF then
        (case parseTerm p of (interval, ok, p1) \<Rightarrow>
           if \<not> ok then ([], False, p1)
           else parseExpr_loop
                  (if \<not> peekTokenIs p1 EOF then snd (expectCurrIs p1 COMMA) else p1)
                  (intervals @ [interval]))
      else (intervals, True, p))"
  by pat_completeness auto
termination
  apply (relation "measure (\<lambda>(p, intervals). pending p)")
   apply simp
  subgoal for p intervals x y xa ya
    using pending_parseTerm [of p x ya] pending_expectCurrIs [of ya COMMA]
    by auto
  done

declare parseExpr_loop.simps [simp del]

definition parseExpr :: "Parser \<Rightarrow> Interval list \<times> bool \<times> Parser" where
  "parseExpr p = parseExpr_loop p []"

definition parser_Parse :: "Parser \<Rightarrow> Interval list \<times> bool \<times> Parser" where
  "parser_Parse p =
     (case parseExpr p of (intervals, ok, p1) \<Rightarrow>
        if \<not> ok then ([], False, p1)
        else if length intervals = 0 then
          ([], False, p1\<lparr>errors := errors p1 @ [''a valid octet should have at least 1 range'']\<rparr>)
        else (intervals, True, p1))"

definition parser_New :: "string \<Rightarrow> Parser" where
  "parser_New s =
     nextToken (nextToken
       \<lparr>lexer = lexer_New s, errors = [],
        currToken = \<lparr>Type = [], Literal = []\<rparr>, peekToken = \<lparr>Type = [], Literal = []\<rparr>\<rparr>)"

section \<open>Octet sets (internal/bitsvector)\<close>

text \<open>
  \<^verbatim>\<open>type OctetBits [32]byte\<close>: a list of 32 bytes. Every index computed below is
  \<open>n / 8\<close> for a byte \<open>n\<close>, hence below 32.
\<close>

type_synonym OctetBits = "byte list"

definition AllSet :: OctetBits where
  "AllSet = replicate 32 0xFF"

text \<open>The method \<^verbatim>\<open>set\<close>: \<^verbatim>\<open>o[n/8] |= 1 << (n % 8)\<close>.\<close>

definition set_bit_ob :: "OctetBits \<Rightarrow> byte \<Rightarrow> OctetBits" where
  "set_bit_ob ob n = ob[unat (n div 8) := (ob ! unat (n div 8)) OR push_bit (unat (n mod 8)) 1]"

text \<open>\<^verbatim>\<open>o[int(n)/8] & (1 << (n % 8)) != 0\<close>.\<close>

definition Test :: "OctetBits \<Rightarrow> byte \<Rightarrow> bool" where
  "Test ob n \<longleftrightarrow> (ob ! (unat n div 8)) AND push_bit (unat (n mod 8)) 1 \<noteq> 0"

text \<open>The inner loop \<^verbatim>\<open>for i := start; i <= end; i++ { ob.set(byte(i)) }\<close> over Go ints.\<close>

function set_range :: "int \<Rightarrow> int \<Rightarrow> OctetBits \<Rightarrow> OctetBits" where
  "set_range i e ob = (if i \<le> e then set_range (i + 1) e (set_bit_ob ob (word_of_int i)) else ob)"
  by pat_completeness auto
termination
  by (relation "measure (\<lambda>(i, e, ob). nat (e + 1 - i))") auto

declare set_range.simps [simp del]

text \<open>The outer loop \<^verbatim>\<open>for _, it := range its\<close>.\<close>

fun New_loop :: "Interval list \<Rightarrow> OctetBits \<Rightarrow> OctetBits" where
  "New_loop [] ob = ob"
| "New_loop (it # its) ob = New_loop its (set_range (uint (fst it)) (uint (snd it)) ob)"

definition bitsvector_New :: "Interval list \<Rightarrow> OctetBits" where
  "bitsvector_New its =
     (if length its = 1 \<and> fst (its ! 0) = snd (its ! 0) \<and> fst (its ! 0) = 255 then AllSet
      else New_loop its (replicate 32 0))"

section \<open>Literal addresses (internal/ip)\<close>

text \<open>
  Go's \<^verbatim>\<open>strings.Split(s, ".")\<close>: the substrings between the dots, in order; a string
  without a dot (the empty string too) gives one component.
\<close>

fun Split_from :: "string \<Rightarrow> string \<Rightarrow> string list" where
  "Split_from cur [] = [cur]"
| "Split_from cur (c # cs) =
     (if c = CHR ''.'' then cur # Split_from [] cs else Split_from (cur @ [c]) cs)"

definition Split :: "string \<Rightarrow> string list" where
  "Split s = Split_from [] s"

text \<open>
  Go's \<^verbatim>\<open>strconv.ParseUint(s, 10, 8)\<close>: the empty string and any byte that is not a
  decimal digit are \<^verbatim>\<open>ErrSyntax\<close>; a value that leaves 8 bits is \<^verbatim>\<open>ErrRange\<close>,
  reported at the digit where it happens.
\<close>

datatype NumErr = ErrSyntax | ErrRange

fun ParseUint_loop :: "int \<Rightarrow> string \<Rightarrow> NumErr + int" where
  "ParseUint_loop n [] = Inr n"
| "ParseUint_loop n (c # cs) =
     (if \<not> isDigit c then Inl ErrSyntax
      else if n * 10 + digit_val c > 255 then Inl ErrRange
      else ParseUint_loop (n * 10 + digit_val c) cs)"

definition ParseUint8 :: "string \<Rightarrow> NumErr + int" where
  "ParseUint8 s = (if s = [] then Inl ErrSyntax else ParseUint_loop 0 s)"

text \<open>
  The errors of the three packages: \<^verbatim>\<open>fmt.Errorf("invalid ip: %s", ip)\<close>, the
  \<^verbatim>\<open>*strconv.NumError\<close> of \<^verbatim>\<open>ParseUint\<close> with the offending text,
  \<^verbatim>\<open>fmt.Errorf("invalid ip expression: %s", expr)\<close> and
  \<^verbatim>\<open>fmt.Errorf("invalid octet format in %s", o)\<close>.
\<close>

datatype error =
    InvalidIP string
  | NumError string NumErr
  | InvalidIPExpression string
  | InvalidOctetFormat string

text \<open>\<^verbatim>\<open>type IPv4 = net.IP\<close>; after \<^verbatim>\<open>To4()\<close> it is the slice of the four octets.\<close>

type_synonym IPv4 = "byte list"

text \<open>The loop \<^verbatim>\<open>for i, os := range parts\<close>: the first octet that fails ends it.\<close>

fun parse_octets :: "string list \<Rightarrow> error + byte list" where
  "parse_octets [] = Inr []"
| "parse_octets (os # rest) =
     (case ParseUint8 os of
        Inl e \<Rightarrow> Inl (NumError os e)
      | Inr octet \<Rightarrow>
          (case parse_octets rest of
             Inl e \<Rightarrow> Inl e
           | Inr octets \<Rightarrow> Inr (word_of_int octet # octets)))"

definition ip_Parse :: "string \<Rightarrow> error + IPv4" where
  "ip_Parse ip =
     (if length (Split ip) \<noteq> 4 then Inl (InvalidIP ip) else parse_octets (Split ip))"

section \<open>Patterns (pkg/ipexpr)\<close>

text \<open>\<^verbatim>\<open>type IPExpr struct { octets [4]bitsvector.OctetBits }\<close>.\<close>

record IPExpr =
  octets :: "OctetBits list"

definition parseOctet :: "string \<Rightarrow> error + OctetBits" where
  "parseOctet oct =
     (case parser_Parse (parser_New oct) of (its, ok, p) \<Rightarrow>
        if \<not> ok then Inl (InvalidOctetFormat oct) else Inr (bitsvector_New its))"

text \<open>The loop \<^verbatim>\<open>for i, part := range parts\<close> of \<^verbatim>\<open>Parse\<close>.\<close>

fun parse_parts :: "string list \<Rightarrow> error + OctetBits list" where
  "parse_parts [] = Inr []"
| "parse_parts (part # rest) =
     (case parseOctet part of
        Inl e \<Rightarrow> Inl e
      | Inr bv \<Rightarrow>
          (case parse_parts rest of
             Inl e \<Rightarrow> Inl e
           | Inr bvs \<Rightarrow> Inr (bv # bvs)))"

definition ipexpr_Parse :: "string \<Rightarrow> error + IPExpr" where
  "ipexpr_Parse expr =
     (if length (Split expr) \<noteq> 4 then Inl (InvalidIPExpression expr)
      else case parse_parts (Split expr) of
             Inl e \<Rightarrow> Inl e
           | Inr bvs \<Rightarrow> Inr \<lparr>octets = bvs\<rparr>)"

text \<open>The loop \<^verbatim>\<open>for i, octet := range ip\<close> of \<^verbatim>\<open>Matches\<close>.\<close>

fun Matches_loop :: "OctetBits list \<Rightarrow> nat \<Rightarrow> byte list \<Rightarrow> bool" where
  "Matches_loop obs i [] = True"
| "Matches_loop obs i (octet # rest) =
     (if \<not> Test (obs ! i) octet then False else Matches_loop obs (i + 1) rest)"

definition Matches :: "IPExpr \<Rightarrow> string \<Rightarrow> error + bool" where
  "Matches ie s =
     (case ip_Parse s of
        Inl e \<Rightarrow> Inl e
      | Inr ip \<Rightarrow> Inr (Matches_loop (octets ie) 0 ip))"

subsection \<open>Enumeration\<close>

text \<open>
  \<^verbatim>\<open>Generate\<close> returns an iterator over pairs of an index and an address. The model
  computes the list of all pairs it yields to a consumer that never stops it. The inner
  \<^verbatim>\<open>for { ... }\<close> has no bound of its own (it spins on an empty octet set), and neither has
  the outer loop, so both take fuel, and \<open>None\<close> means the fuel ran out.

  The counters are Go ints, \<^verbatim>\<open>byte(counter[k])\<close> keeps the low 8 bits.
\<close>

fun advance :: "nat \<Rightarrow> OctetBits \<Rightarrow> int \<Rightarrow> bool \<Rightarrow> (int \<times> bool) option" where
  "advance 0 ob c carry = None"
| "advance (Suc fuel) ob c carry =
     (let c' = (c + 1) mod 256;
          carry' = (if c' = 0 then True else carry)
      in if Test ob (word_of_int c') then Some (c', carry')
         else advance fuel ob c' carry')"

text \<open>The loop \<^verbatim>\<open>for i := range 4\<close>, from position \<open>3 - i\<close> towards position 0.\<close>

function carry_loop :: "nat \<Rightarrow> IPExpr \<Rightarrow> nat \<Rightarrow> int list \<Rightarrow> int list option" where
  "carry_loop fuel ie i counter =
     (if i < 4 then
        (case advance fuel (octets ie ! (3 - i)) (counter ! (3 - i)) False of
           None \<Rightarrow> None
         | Some (c, carry) \<Rightarrow>
             if \<not> carry then Some (counter[3 - i := c])
             else carry_loop fuel ie (i + 1) (counter[3 - i := c]))
      else Some counter)"
  by pat_completeness auto
termination
  by (relation "measure (\<lambda>(fuel, ie, i, counter). 4 - i)") auto

declare carry_loop.simps [simp del]

definition IPv4 :: "byte \<Rightarrow> byte \<Rightarrow> byte \<Rightarrow> byte \<Rightarrow> IPv4" where
  "IPv4 a b c d = [a, b, c, d]"

text \<open>
  The outer loop, guarded by
  \<^verbatim>\<open>counter[0] != 0 && counter[1] != 0 && counter[2] != 0 && counter[3] != 0\<close>.
  The address is built before the counters advance and yielded after.
\<close>

fun Generate_loop :: "nat \<Rightarrow> IPExpr \<Rightarrow> int list \<Rightarrow> int \<Rightarrow> (int \<times> IPv4) list option" where
  "Generate_loop fuel ie counter i =
     (if counter ! 0 \<noteq> 0 \<and> counter ! 1 \<noteq> 0 \<and> counter ! 2 \<noteq> 0 \<and> counter ! 3 \<noteq> 0 then
        (case fuel of
           0 \<Rightarrow> None
         | Suc fuel' \<Rightarrow>
             let ip = IPv4 (word_of_int (counter ! 0)) (word_of_int (counter ! 1))
                           (word_of_int (counter ! 2)) (word_of_int (counter ! 3))
             in case carry_loop fuel ie 0 counter of
                  None \<Rightarrow> None
                | Some counter' \<Rightarrow>
                    map_option (\<lambda>rest. (i, ip) # rest) (Generate_loop fuel' ie counter' (i + 1)))
      else Some [])"

declare Generate_loop.simps [simp del]

text \<open>\<^verbatim>\<open>i := 0; counter := [4]int{}\<close>, then the loop.\<close>

definition Generate :: "nat \<Rightarrow> IPExpr \<Rightarrow> (int \<times> IPv4) list option" where
  "Generate fuel ie = Generate_loop fuel ie [0, 0, 0, 0] 0"

section \<open>Notions used in the statements\<close>

text \<open>The three results of running the interval parser on a string.\<close>

definition parse_ok :: "string \<Rightarrow> bool" where
  "parse_ok s = fst (snd (parser_Parse (parser_New s)))"

definition parse_intervals :: "string \<Rightarrow> Interval list" where
  "parse_intervals s = fst (parser_Parse (parser_New s))"

definition parse_errors :: "string \<Rightarrow> string list" where
  "parse_errors s = errors (snd (snd (parser_Parse (parser_New s))))"

text \<open>
  The spec's words for a well-formed literal address: four components, each numeric and
  in range.
\<close>

definition wellformed_octet :: "string \<Rightarrow> bool" where
  "wellformed_octet os \<longleftrightarrow> os \<noteq> [] \<and> list_all isDigit os \<and> digits_val os \<le> 255"

definition wellformed_address :: "string \<Rightarrow> bool" where
  "wellformed_address s \<longleftrightarrow> length (Split s) = 4 \<and> list_all wellformed_octet (Split s)"

text \<open>
  Every lexer state reached from \<open>lexer_New s\<close> is determined by the index of the
  current byte: \<open>lexer_at s i\<close>.
\<close>

definition lexer_at :: "string \<Rightarrow> nat \<Rightarrow> Lexer" where
  "lexer_at s i =
     \<lparr>input = s, position = i, readPosition = i + 1,
      ch = (if i < length s then s ! i else nul)\<rparr>"

text \<open>The token returned by call number \<open>n + 1\<close> on a lexer, and the lexer after it.\<close>

fun NextToken_nth :: "nat \<Rightarrow> Lexer \<Rightarrow> Token \<times> Lexer" where
  "NextToken_nth 0 lx = NextToken lx"
| "NextToken_nth (Suc n) lx = NextToken_nth n (snd (NextToken lx))"

section \<open>Facts about octet sets\<close>

lemma Test_bit: "Test ob n \<longleftrightarrow> bit (ob ! (unat n div 8)) (unat n mod 8)"
  by (simp add: Test_def unat_mod_distrib and_exp_eq_0_iff_not_bit)

lemma set_bit_ob_alt:
  "set_bit_ob ob n = ob[unat n div 8 := (ob ! (unat n div 8)) OR 2 ^ (unat n mod 8)]"
  by (simp add: set_bit_ob_def unat_div_distrib unat_mod_distrib)

lemma length_set_bit_ob [simp]: "length (set_bit_ob ob n) = length ob"
  by (simp add: set_bit_ob_def)

lemma byte_index_lt: "unat (n::byte) div 8 < 32"
proof -
  have "unat n < 2 ^ LENGTH(8)" by (rule unsigned_less)
  then have "unat n < 256" by simp
  then show ?thesis by simp
qed

lemma byte_eq_div_mod:
  "(v::byte) = n \<longleftrightarrow> unat v div 8 = unat n div 8 \<and> unat v mod 8 = unat n mod 8"
proof
  assume "unat v div 8 = unat n div 8 \<and> unat v mod 8 = unat n mod 8"
  then have "unat v = unat n"
    by (metis div_mult_mod_eq)
  then show "v = n" by (simp add: word_unat_eq_iff)
qed simp

lemma Test_set_bit_ob:
  assumes "length ob = 32"
  shows "Test (set_bit_ob ob n) v \<longleftrightarrow> v = n \<or> Test ob v"
proof (cases "unat v div 8 = unat n div 8")
  case True
  have lt: "unat n div 8 < length ob" using assms byte_index_lt [of n] by simp
  have m: "unat v mod 8 < 8" by simp
  show ?thesis
    using True lt m
    by (auto simp add: Test_bit set_bit_ob_alt byte_eq_div_mod bit_or_iff bit_exp_iff)
next
  case False
  then show ?thesis
    by (auto simp add: Test_bit set_bit_ob_alt byte_eq_div_mod)
qed

lemma length_set_range [simp]: "length (set_range i e ob) = length ob"
  by (induction i e ob rule: set_range.induct) (simp add: set_range.simps)

lemma Test_set_range:
  assumes "length ob = 32"
  shows "Test (set_range i e ob) v \<longleftrightarrow> Test ob v \<or> (\<exists>k. i \<le> k \<and> k \<le> e \<and> v = word_of_int k)"
  using assms
proof (induction i e ob rule: set_range.induct)
  case (1 i e ob)
  show ?case
  proof (cases "i \<le> e")
    case True
    have "Test (set_range i e ob) v \<longleftrightarrow> Test (set_range (i + 1) e (set_bit_ob ob (word_of_int i))) v"
      using True by (simp add: set_range.simps [of i e ob])
    also have "\<dots> \<longleftrightarrow> Test (set_bit_ob ob (word_of_int i)) v \<or> (\<exists>k. i + 1 \<le> k \<and> k \<le> e \<and> v = word_of_int k)"
      using "1.IH" [OF True] "1.prems" by simp
    also have "\<dots> \<longleftrightarrow> Test ob v \<or> v = word_of_int i \<or> (\<exists>k. i + 1 \<le> k \<and> k \<le> e \<and> v = word_of_int k)"
      using "1.prems" by (auto simp add: Test_set_bit_ob)
    also have "\<dots> \<longleftrightarrow> Test ob v \<or> (\<exists>k. i \<le> k \<and> k \<le> e \<and> v = word_of_int k)"
    proof -
      have "(v = word_of_int i \<or> (\<exists>k. i + 1 \<le> k \<and> k \<le> e \<and> v = word_of_int k))
            \<longleftrightarrow> (\<exists>k. i \<le> k \<and> k \<le> e \<and> v = word_of_int k)" (is "?L \<longleftrightarrow> ?R")
      proof
        assume ?L
        then show ?R
        proof
          assume "v = word_of_int i"
          with True show ?R by blast
        next
          assume "\<exists>k. i + 1 \<le> k \<and> k \<le> e \<and> v = word_of_int k"
          then obtain k where "i + 1 \<le> k" "k \<le> e" "v = word_of_int k" by blast
          then have "i \<le> k \<and> k \<le> e \<and> v = word_of_int k" by simp
          then show ?R by blast
        qed
      next
        assume ?R
        then obtain k where k: "i \<le> k" "k \<le> e" "v = word_of_int k" by blast
        show ?L
        proof (cases "k = i")
          case True
          with k show ?thesis by simp
        next
          case False
          with k have "i + 1 \<le> k" by simp
          with k show ?thesis by blast
        qed
      qed
      then show ?thesis by blast
    qed
    finally show ?thesis .
  next
    case False
    then show ?thesis by (auto simp add: set_range.simps [of i e ob])
  qed
qed

lemma Test_set_range_uint:
  assumes "length ob = 32"
  shows "Test (set_range (uint lo) (uint hi) ob) v \<longleftrightarrow> Test ob v \<or> (lo \<le> v \<and> v \<le> hi)"
proof -
  have "(\<exists>k. uint lo \<le> k \<and> k \<le> uint hi \<and> v = word_of_int k) \<longleftrightarrow> lo \<le> v \<and> v \<le> hi"
  proof
    assume "\<exists>k. uint lo \<le> k \<and> k \<le> uint hi \<and> v = word_of_int k"
    then obtain k where k: "uint lo \<le> k" "k \<le> uint hi" "v = word_of_int k" by blast
    have "0 \<le> k" using k(1) uint_ge_0 [of lo] by linarith
    moreover have "k < 2 ^ LENGTH(8)" using k(2) uint_lt2p [of hi] by linarith
    ultimately have "uint v = k" using k(3) by (simp add: uint_word_of_int)
    with k show "lo \<le> v \<and> v \<le> hi" by (simp add: word_le_def)
  next
    assume "lo \<le> v \<and> v \<le> hi"
    then have "uint lo \<le> uint v \<and> uint v \<le> uint hi \<and> v = word_of_int (uint v)"
      by (simp add: word_le_def)
    then show "\<exists>k. uint lo \<le> k \<and> k \<le> uint hi \<and> v = word_of_int k" by blast
  qed
  then show ?thesis using Test_set_range [OF assms] by simp
qed

lemma length_New_loop [simp]: "length (New_loop its ob) = length ob"
  by (induction its arbitrary: ob) simp_all

lemma Test_New_loop:
  "length ob = 32 \<Longrightarrow>
   Test (New_loop its ob) v \<longleftrightarrow> Test ob v \<or> (\<exists>it \<in> set its. fst it \<le> v \<and> v \<le> snd it)"
proof (induction its arbitrary: ob)
  case Nil
  then show ?case by simp
next
  case (Cons it its)
  then show ?case
    by (auto simp add: Test_set_range_uint)
qed

lemma Test_zero: "\<not> Test (replicate 32 0) v"
  using byte_index_lt [of v] by (simp add: Test_bit)

lemma Test_AllSet: "Test AllSet v"
proof -
  have "unat v mod 8 < 8" by simp
  then have "bit (- 1 :: byte) (unat v mod 8)" by simp
  moreover have "(255::byte) = - 1" by simp
  ultimately have "bit (255::byte) (unat v mod 8)" by (simp only:)
  then show ?thesis
    using byte_index_lt [of v] by (simp add: Test_bit AllSet_def)
qed

lemma New_sentinel: "bitsvector_New [(255, 255)] = AllSet"
  by (simp add: bitsvector_New_def)

lemma New_not_sentinel:
  "its \<noteq> [(255, 255)] \<Longrightarrow> bitsvector_New its = New_loop its (replicate 32 0)"
proof -
  assume ne: "its \<noteq> [(255, 255)]"
  have "\<not> (length its = 1 \<and> fst (its ! 0) = snd (its ! 0) \<and> fst (its ! 0) = 255)"
  proof
    assume a: "length its = 1 \<and> fst (its ! 0) = snd (its ! 0) \<and> fst (its ! 0) = 255"
    then obtain it where "its = [it]" by (cases its) auto
    with a have "its = [(255, 255)]" by (cases it) simp
    with ne show False by simp
  qed
  then show ?thesis unfolding bitsvector_New_def by (simp only: if_False)
qed

lemma Test_New_general:
  "its \<noteq> [(255, 255)] \<Longrightarrow>
   Test (bitsvector_New its) v \<longleftrightarrow> (\<exists>it \<in> set its. fst it \<le> v \<and> v \<le> snd it)"
  by (simp add: New_not_sentinel Test_New_loop Test_zero)

section \<open>Facts about splitting and octet parsing\<close>

lemma Split_from_no_dot: "CHR ''.'' \<notin> set cs \<Longrightarrow> Split_from cur cs = [cur @ cs]"
  by (induction cs arbitrary: cur) auto

lemma Split_from_dot:
  "CHR ''.'' \<notin> set a \<Longrightarrow> Split_from cur (a @ CHR ''.'' # rest) = (cur @ a) # Split_from [] rest"
  by (induction a arbitrary: cur) auto

lemma Split_four:
  assumes "CHR ''.'' \<notin> set a" "CHR ''.'' \<notin> set b" "CHR ''.'' \<notin> set c" "CHR ''.'' \<notin> set d"
  shows "Split (a @ ''.'' @ b @ ''.'' @ c @ ''.'' @ d) = [a, b, c, d]"
  using assms by (simp add: Split_def Split_from_dot Split_from_no_dot)

lemma isDigit_not_dot: "isDigit c \<Longrightarrow> c \<noteq> CHR ''.''"
  by (auto simp add: isDigit_def)

lemma digits_no_dot: "list_all isDigit ds \<Longrightarrow> CHR ''.'' \<notin> set ds"
  by (auto simp add: list_all_iff dest: isDigit_not_dot)

lemma digit_val_range: "isDigit c \<Longrightarrow> 0 \<le> digit_val c \<and> digit_val c \<le> 9"
  by (auto simp add: isDigit_def digit_val_def)

lemma foldl_digits_ge:
  "list_all isDigit cs \<Longrightarrow> 0 \<le> n \<Longrightarrow> n \<le> foldl (\<lambda>n c. n * 10 + digit_val c) n cs"
proof (induction cs arbitrary: n)
  case Nil
  then show ?case by simp
next
  case (Cons c cs)
  then have d: "0 \<le> digit_val c" using digit_val_range [of c] by simp
  have "n \<le> n * 10 + digit_val c" using Cons.prems(2) d by simp
  also have "\<dots> \<le> foldl (\<lambda>n c. n * 10 + digit_val c) (n * 10 + digit_val c) cs"
    using Cons.IH [of "n * 10 + digit_val c"] Cons.prems d by simp
  finally show ?case by simp
qed

lemma ParseUint_loop_Inr:
  "0 \<le> n \<Longrightarrow> n \<le> 255 \<Longrightarrow>
   ParseUint_loop n cs = Inr m \<longleftrightarrow>
     list_all isDigit cs \<and> foldl (\<lambda>n c. n * 10 + digit_val c) n cs \<le> 255
     \<and> m = foldl (\<lambda>n c. n * 10 + digit_val c) n cs"
proof (induction cs arbitrary: n)
  case Nil
  then show ?case by auto
next
  case (Cons c cs)
  show ?case
  proof (cases "isDigit c")
    case False
    then show ?thesis by simp
  next
    case True
    then have d: "0 \<le> digit_val c" using digit_val_range [of c] by simp
    show ?thesis
    proof (cases "n * 10 + digit_val c > 255")
      case big: True
      have "list_all isDigit cs \<Longrightarrow>
            n * 10 + digit_val c \<le> foldl (\<lambda>n c. n * 10 + digit_val c) (n * 10 + digit_val c) cs"
        using foldl_digits_ge [of cs "n * 10 + digit_val c"] Cons.prems(1) d by simp
      with big True show ?thesis by auto
    next
      case small: False
      have "0 \<le> n * 10 + digit_val c" using Cons.prems(1) d by simp
      moreover have "n * 10 + digit_val c \<le> 255" using small by simp
      ultimately show ?thesis using Cons.IH [of "n * 10 + digit_val c"] True small by simp
    qed
  qed
qed

lemma ParseUint8_Inr:
  "ParseUint8 os = Inr m \<longleftrightarrow> wellformed_octet os \<and> m = digits_val os"
  using ParseUint_loop_Inr [of 0 os m]
  by (auto simp add: ParseUint8_def wellformed_octet_def digits_val_def)

lemma parse_octets_Inr:
  "parse_octets parts = Inr bs \<longleftrightarrow>
     list_all wellformed_octet parts \<and> bs = map (\<lambda>os. word_of_int (digits_val os)) parts"
proof (induction parts arbitrary: bs)
  case Nil
  then show ?case by auto
next
  case (Cons os rest)
  show ?case
  proof (cases "ParseUint8 os")
    case (Inl e)
    then have "\<not> wellformed_octet os" using ParseUint8_Inr [of os] by auto
    with Inl show ?thesis by simp
  next
    case (Inr m)
    then have wf: "wellformed_octet os" and m: "m = digits_val os"
      using ParseUint8_Inr [of os m] by auto
    show ?thesis
    proof (cases "parse_octets rest")
      case il: (Inl e)
      then have "\<not> list_all wellformed_octet rest" using Cons.IH by auto
      with Inr il show ?thesis by simp
    next
      case ir: (Inr octs)
      then have "list_all wellformed_octet rest"
        and "octs = map (\<lambda>os. word_of_int (digits_val os)) rest"
        using Cons.IH [of octs] by auto
      with Inr ir wf m show ?thesis by auto
    qed
  qed
qed

lemma ip_Parse_Inr:
  "ip_Parse s = Inr bs \<longleftrightarrow>
     wellformed_address s \<and> bs = map (\<lambda>os. word_of_int (digits_val os)) (Split s)"
  by (auto simp add: ip_Parse_def wellformed_address_def parse_octets_Inr)

lemma ip_Parse_error_iff: "(\<exists>e. ip_Parse s = Inl e) \<longleftrightarrow> \<not> wellformed_address s"
proof (cases "ip_Parse s")
  case (Inl e)
  then show ?thesis using ip_Parse_Inr [of s] by auto
next
  case (Inr bs)
  then show ?thesis using ip_Parse_Inr [of s bs] by auto
qed

lemma Matches_loop_iff:
  "Matches_loop obs i bs \<longleftrightarrow> (\<forall>k < length bs. Test (obs ! (i + k)) (bs ! k))"
proof (induction bs arbitrary: i)
  case Nil
  then show ?case by simp
next
  case (Cons b bs)
  have "(\<forall>k < length (b # bs). Test (obs ! (i + k)) ((b # bs) ! k)) \<longleftrightarrow>
        Test (obs ! i) b \<and> (\<forall>k < length bs. Test (obs ! (i + 1 + k)) (bs ! k))"
    by (auto simp add: less_Suc_eq_0_disj)
  then show ?case using Cons.IH [of "i + 1"] by auto
qed

lemma Matches_wellformed:
  assumes "wellformed_address s"
  shows "Matches ie s =
           Inr (\<forall>k < 4. Test (octets ie ! k) (word_of_int (digits_val (Split s ! k))))"
proof -
  have len: "length (Split s) = 4" using assms by (simp add: wellformed_address_def)
  have "ip_Parse s = Inr (map (\<lambda>os. word_of_int (digits_val os)) (Split s))"
    using assms ip_Parse_Inr by simp
  then show ?thesis by (simp add: Matches_def Matches_loop_iff len)
qed

lemma Matches_error_iff: "(\<exists>e. Matches ie s = Inl e) \<longleftrightarrow> \<not> wellformed_address s"
proof -
  have "(\<exists>e. Matches ie s = Inl e) \<longleftrightarrow> (\<exists>e. ip_Parse s = Inl e)"
    by (cases "ip_Parse s") (simp_all add: Matches_def)
  then show ?thesis by (simp add: ip_Parse_error_iff)
qed

lemma Matches_error_any_pattern: "Matches ie s = Inl e \<Longrightarrow> Matches ie' s = Inl e"
  by (cases "ip_Parse s") (simp_all add: Matches_def)

lemma parseOctet_fail: "\<not> parse_ok part \<Longrightarrow> parseOctet part = Inl (InvalidOctetFormat part)"
  by (cases "parser_Parse (parser_New part)" rule: prod_cases3)
     (simp add: parseOctet_def parse_ok_def)

lemma parseOctet_ok:
  "parse_ok part \<Longrightarrow> parseOctet part = Inr (bitsvector_New (parse_intervals part))"
  by (cases "parser_Parse (parser_New part)" rule: prod_cases3)
     (simp add: parseOctet_def parse_ok_def parse_intervals_def)

lemma parse_parts_first_failure:
  "i < length parts \<Longrightarrow> \<not> parse_ok (parts ! i) \<Longrightarrow> (\<forall>j < i. parse_ok (parts ! j)) \<Longrightarrow>
   parse_parts parts = Inl (InvalidOctetFormat (parts ! i))"
proof (induction parts arbitrary: i)
  case Nil
  then show ?case by simp
next
  case (Cons part rest)
  show ?case
  proof (cases i)
    case 0
    with Cons.prems show ?thesis by (simp add: parseOctet_fail)
  next
    case (Suc k)
    have ok: "parse_ok part" using Cons.prems(3) Suc by auto
    have "parse_parts rest = Inl (InvalidOctetFormat (rest ! k))"
    proof (rule Cons.IH)
      show "k < length rest" using Cons.prems(1) Suc by simp
      show "\<not> parse_ok (rest ! k)" using Cons.prems(2) Suc by simp
      show "\<forall>j < k. parse_ok (rest ! j)" using Cons.prems(3) Suc by auto
    qed
    with ok Suc show ?thesis by (simp add: parseOctet_ok)
  qed
qed

lemma parse_parts_all_ok:
  "list_all parse_ok parts \<Longrightarrow>
   parse_parts parts = Inr (map (\<lambda>part. bitsvector_New (parse_intervals part)) parts)"
  by (induction parts) (simp_all add: parseOctet_ok)

section \<open>Facts about the lexer\<close>

lemma lexer_New_at: "lexer_New s = lexer_at s 0"
  by (simp add: lexer_New_def readChar_def lexer_at_def)

lemma readChar_at: "readChar (lexer_at s i) = lexer_at s (i + 1)"
  by (simp add: readChar_def lexer_at_def)

lemma ch_at_end: "length s \<le> i \<Longrightarrow> ch (lexer_at s i) = nul"
  by (simp add: lexer_at_def)

lemma ch_at_inside: "i < length s \<Longrightarrow> ch (lexer_at s i) = s ! i"
  by (simp add: lexer_at_def)

lemma skipWhiteSpaces_at:
  "\<exists>j \<ge> i. skipWhiteSpaces (lexer_at s i) = lexer_at s j"
proof (induction "length s - i" arbitrary: i rule: less_induct)
  case less
  show ?case
  proof (cases "ch (lexer_at s i) = CHR '' ''")
    case False
    then have "skipWhiteSpaces (lexer_at s i) = lexer_at s i"
      by (simp add: skipWhiteSpaces.simps [of "lexer_at s i"])
    then show ?thesis by blast
  next
    case True
    then have "i < length s" by (auto simp add: lexer_at_def nul_def split: if_splits)
    then have "length s - (i + 1) < length s - i" by simp
    from less [OF this] obtain j where "i + 1 \<le> j"
      and "skipWhiteSpaces (lexer_at s (i + 1)) = lexer_at s j" by blast
    then have "i \<le> j \<and> skipWhiteSpaces (lexer_at s i) = lexer_at s j"
      using True by (simp add: skipWhiteSpaces.simps [of "lexer_at s i"] readChar_at)
    then show ?thesis by blast
  qed
qed

lemma skipWhiteSpaces_id: "ch lx \<noteq> CHR '' '' \<Longrightarrow> skipWhiteSpaces lx = lx"
  by (simp add: skipWhiteSpaces.simps [of lx])

lemma readNumber_loop_at:
  "\<exists>j \<ge> i. readNumber_loop (lexer_at s i) = lexer_at s j"
proof (induction "length s - i" arbitrary: i rule: less_induct)
  case less
  show ?case
  proof (cases "isDigit (ch (lexer_at s i))")
    case False
    then have "readNumber_loop (lexer_at s i) = lexer_at s i"
      by (simp add: readNumber_loop.simps [of "lexer_at s i"])
    then show ?thesis by blast
  next
    case True
    then have "i < length s"
      using isDigit_not_nul [of "ch (lexer_at s i)"] by (auto simp add: lexer_at_def split: if_splits)
    then have "length s - (i + 1) < length s - i" by simp
    from less [OF this] obtain j where "i + 1 \<le> j"
      and "readNumber_loop (lexer_at s (i + 1)) = lexer_at s j" by blast
    then have "i \<le> j \<and> readNumber_loop (lexer_at s i) = lexer_at s j"
      using True by (simp add: readNumber_loop.simps [of "lexer_at s i"] readChar_at)
    then show ?thesis by blast
  qed
qed

lemma readNumber_in_bounds:
  assumes "isDigit (ch (lexer_at s i))"
  shows "\<exists>j. i \<le> j \<and> j \<le> length s \<and> readNumber_loop (lexer_at s i) = lexer_at s j"
  using assms
proof (induction "length s - i" arbitrary: i rule: less_induct)
  case less
  have i: "i < length s"
    using less.prems isDigit_not_nul [of "ch (lexer_at s i)"]
    by (auto simp add: lexer_at_def split: if_splits)
  have step: "readNumber_loop (lexer_at s i) = readNumber_loop (lexer_at s (Suc i))"
    using less.prems by (simp add: readNumber_loop.simps [of "lexer_at s i"] readChar_at)
  show ?case
  proof (cases "isDigit (ch (lexer_at s (Suc i)))")
    case False
    then have "readNumber_loop (lexer_at s (Suc i)) = lexer_at s (Suc i)"
      by (simp add: readNumber_loop.simps [of "lexer_at s (Suc i)"])
    with step i have "i \<le> Suc i \<and> Suc i \<le> length s
        \<and> readNumber_loop (lexer_at s i) = lexer_at s (Suc i)" by simp
    then show ?thesis by blast
  next
    case True
    have "length s - (Suc i) < length s - i" using i by simp
    from less.hyps [OF this True] obtain j where
      "Suc i \<le> j" "j \<le> length s" "readNumber_loop (lexer_at s (Suc i)) = lexer_at s j"
      by blast
    with step have "i \<le> j \<and> j \<le> length s \<and> readNumber_loop (lexer_at s i) = lexer_at s j"
      by simp
    then show ?thesis by blast
  qed
qed

lemma NextToken_at: "\<exists>j. snd (NextToken (lexer_at s i)) = lexer_at s j"
proof -
  obtain k where k: "skipWhiteSpaces (lexer_at s i) = lexer_at s k"
    using skipWhiteSpaces_at [of i s] by blast
  obtain j where j: "readNumber_loop (lexer_at s k) = lexer_at s j"
    using readNumber_loop_at [of k s] by blast
  have "snd (NextToken (lexer_at s i)) = lexer_at s (k + 1)
        \<or> snd (NextToken (lexer_at s i)) = lexer_at s j"
    by (simp add: NextToken_def k Let_def readChar_at readNumber_def j)
  then show ?thesis by blast
qed

lemma NextToken_at_end:
  assumes "length s \<le> i"
  shows "NextToken (lexer_at s i) = (token_New EOF [], lexer_at s (i + 1))"
proof -
  have c: "ch (lexer_at s i) = nul" using assms by (rule ch_at_end)
  then have "skipWhiteSpaces (lexer_at s i) = lexer_at s i"
    by (simp add: skipWhiteSpaces_id nul_def)
  then show ?thesis
    using c by (simp add: NextToken_def Let_def readChar_at nul_def)
qed

lemma token_types_distinct:
  "DASH \<noteq> EOF" "ASTERISK \<noteq> EOF" "COMMA \<noteq> EOF" "NUMBER \<noteq> EOF" "ILLEGAL \<noteq> EOF"
  by (simp_all add: DASH_def ASTERISK_def COMMA_def NUMBER_def ILLEGAL_def EOF_def)

lemma NextToken_EOF_at_end:
  assumes nf: "nul \<notin> set s" and eof: "Type (fst (NextToken (lexer_at s i))) = EOF"
  shows "fst (NextToken (lexer_at s i)) = token_New EOF []
         \<and> (\<exists>j \<ge> length s. snd (NextToken (lexer_at s i)) = lexer_at s j)"
proof -
  obtain k where k: "skipWhiteSpaces (lexer_at s i) = lexer_at s k"
    using skipWhiteSpaces_at [of i s] by blast
  have c: "ch (lexer_at s k) = nul"
  proof (rule ccontr)
    assume "ch (lexer_at s k) \<noteq> nul"
    then have "Type (fst (NextToken (lexer_at s i))) \<noteq> EOF"
      by (simp add: NextToken_def k Let_def token_New_def token_types_distinct
          split: prod.splits)
    with eof show False by simp
  qed
  have "length s \<le> k"
  proof (rule ccontr)
    assume "\<not> length s \<le> k"
    then have "k < length s" by simp
    then have "ch (lexer_at s k) \<in> set s" by (simp add: ch_at_inside)
    with c nf show False by simp
  qed
  moreover have "NextToken (lexer_at s i) = (token_New EOF [], lexer_at s (k + 1))"
    using c by (simp add: NextToken_def k Let_def readChar_at nul_def)
  ultimately have "fst (NextToken (lexer_at s i)) = token_New EOF []
    \<and> length s \<le> k + 1 \<and> snd (NextToken (lexer_at s i)) = lexer_at s (k + 1)" by simp
  then show ?thesis by blast
qed

lemma NextToken_nth_past_end:
  "length s \<le> i \<Longrightarrow> fst (NextToken_nth m (lexer_at s i)) = token_New EOF []"
  by (induction m arbitrary: i) (simp_all add: NextToken_at_end)

lemma NextToken_nth_EOF_stays:
  assumes "nul \<notin> set s"
  shows "Type (fst (NextToken_nth n (lexer_at s i))) = EOF \<Longrightarrow> n \<le> m \<Longrightarrow>
         fst (NextToken_nth m (lexer_at s i)) = token_New EOF []"
proof (induction n arbitrary: i m)
  case 0
  then have e: "Type (fst (NextToken (lexer_at s i))) = EOF" by simp
  from NextToken_EOF_at_end [OF assms e] obtain j where
    t: "fst (NextToken (lexer_at s i)) = token_New EOF []" and
    j: "length s \<le> j" "snd (NextToken (lexer_at s i)) = lexer_at s j" by blast
  show ?case
  proof (cases m)
    case 0
    with t show ?thesis by simp
  next
    case (Suc m')
    then show ?thesis using j by (simp add: NextToken_nth_past_end)
  qed
next
  case (Suc n)
  obtain j where j: "snd (NextToken (lexer_at s i)) = lexer_at s j"
    using NextToken_at [of s i] by blast
  from Suc.prems(2) obtain m' where m: "m = Suc m'" "n \<le> m'" by (cases m) auto
  have "Type (fst (NextToken_nth n (lexer_at s j))) = EOF" using Suc.prems(1) j by simp
  from Suc.IH [OF this m(2)] show ?case using m(1) j by simp
qed

lemma readNumber_loop_digits:
  "s = pre @ ds @ rest \<Longrightarrow> list_all isDigit ds \<Longrightarrow> rest = [] \<or> \<not> isDigit (hd rest) \<Longrightarrow>
   readNumber_loop (lexer_at s (length pre)) = lexer_at s (length pre + length ds)"
proof (induction ds arbitrary: pre)
  case Nil
  have "\<not> isDigit (ch (lexer_at s (length pre)))"
  proof (cases rest)
    case Nil
    with \<open>s = pre @ [] @ rest\<close> show ?thesis
      using isDigit_not_nul [of nul] by (auto simp add: lexer_at_def)
  next
    case (Cons r rs)
    with Nil.prems show ?thesis by (simp add: lexer_at_def nth_append)
  qed
  then show ?case by (simp add: readNumber_loop.simps [of "lexer_at s (length pre)"])
next
  case (Cons c cs)
  have c: "ch (lexer_at s (length pre)) = c"
    using Cons.prems(1) by (simp add: lexer_at_def nth_append)
  have "readNumber_loop (lexer_at s (length pre)) = readNumber_loop (lexer_at s (length (pre @ [c])))"
    using c Cons.prems(2)
    by (simp add: readNumber_loop.simps [of "lexer_at s (length pre)"] readChar_at)
  also have "\<dots> = lexer_at s (length (pre @ [c]) + length cs)"
    using Cons.prems by (intro Cons.IH) simp_all
  finally show ?case by simp
qed

lemma position_at: "position (lexer_at s i) = i"
  by (simp add: lexer_at_def)

lemma input_at: "input (lexer_at s i) = s"
  by (simp add: lexer_at_def)

lemma isDigit_not_special:
  "isDigit c \<Longrightarrow> c \<noteq> CHR '' '' \<and> c \<noteq> CHR ''-'' \<and> c \<noteq> CHR ''*'' \<and> c \<noteq> CHR '','' \<and> c \<noteq> CHR ''+''"
  by (auto simp add: isDigit_def)

lemma NextToken_number:
  assumes s: "s = pre @ ds @ rest" and ne: "ds \<noteq> []" and ds: "list_all isDigit ds"
    and rest: "rest = [] \<or> \<not> isDigit (hd rest)"
  shows "NextToken (lexer_at s (length pre)) =
           (token_New NUMBER ds, lexer_at s (length pre + length ds))"
proof -
  obtain c cs where cs: "ds = c # cs" using ne by (cases ds) auto
  have c: "ch (lexer_at s (length pre)) = c"
    using s cs by (simp add: lexer_at_def nth_append)
  have d: "isDigit c" using ds cs by simp
  note sp = isDigit_not_special [OF d] isDigit_not_nul [OF d]
  have skip: "skipWhiteSpaces (lexer_at s (length pre)) = lexer_at s (length pre)"
    using c sp by (simp add: skipWhiteSpaces_id)
  have loop: "readNumber_loop (lexer_at s (length pre)) = lexer_at s (length pre + length ds)"
    using s ds rest by (rule readNumber_loop_digits)
  have "readNumber (lexer_at s (length pre)) =
          (take (length ds) (drop (length pre) s), lexer_at s (length pre + length ds))"
    by (simp add: readNumber_def loop Let_def position_at input_at)
  moreover have "take (length ds) (drop (length pre) s) = ds" using s by simp
  ultimately have "readNumber (lexer_at s (length pre)) = (ds, lexer_at s (length pre + length ds))"
    by simp
  then show ?thesis
    using c d sp by (simp add: NextToken_def skip Let_def)
qed

lemma NextToken_dash:
  assumes "s = pre @ CHR ''-'' # rest"
  shows "NextToken (lexer_at s (length pre)) = (token_New DASH ''-'', lexer_at s (Suc (length pre)))"
proof -
  have c: "ch (lexer_at s (length pre)) = CHR ''-''"
    using assms by (simp add: lexer_at_def nth_append)
  then have "skipWhiteSpaces (lexer_at s (length pre)) = lexer_at s (length pre)"
    by (simp add: skipWhiteSpaces_id)
  then show ?thesis
    using c by (simp add: NextToken_def Let_def readChar_at string_of_byte_def)
qed

lemma digits_val_nonneg: "list_all isDigit ds \<Longrightarrow> 0 \<le> digits_val ds"
  using foldl_digits_ge [of ds 0] by (simp add: digits_val_def)

lemma Atoi_digits:
  assumes "ds \<noteq> []" and "list_all isDigit ds" and "digits_val ds < 2 ^ 63"
  shows "Atoi ds = Some (digits_val ds)"
proof -
  obtain c cs where cs: "ds = c # cs" using assms(1) by (cases ds) auto
  then have "isDigit c" using assms(2) by simp
  then have "hd ds \<noteq> CHR ''-''" "hd ds \<noteq> CHR ''+''"
    using isDigit_not_special [of c] cs by simp_all
  then show ?thesis using assms by (simp add: Atoi_def Let_def)
qed

lemma parseNumber_octet:
  assumes "currToken p = token_New NUMBER ds" and "wellformed_octet ds"
  shows "parseNumber p = (word_of_int (digits_val ds), True, nextToken p)"
proof -
  have "Atoi ds = Some (digits_val ds)"
    using assms(2) by (intro Atoi_digits) (simp_all add: wellformed_octet_def)
  moreover have "0 \<le> digits_val ds" "digits_val ds \<le> 255"
    using assms(2) by (simp_all add: wellformed_octet_def digits_val_nonneg)
  ultimately show ?thesis
    using assms(1) by (simp add: parseNumber_def currTokenIs_def token_New_def)
qed

text \<open>The run of the parser on a range term \<open>d1-d2\<close> of two octets.\<close>

lemma Parse_range_term:
  assumes d1: "wellformed_octet d1" and d2: "wellformed_octet d2"
  shows "parse_ok (d1 @ ''-'' @ d2)"
    and "parse_intervals (d1 @ ''-'' @ d2) =
           [(word_of_int (digits_val d1), word_of_int (digits_val d2))]"
    and "parse_errors (d1 @ ''-'' @ d2) = []"
proof -
  define s where "s = d1 @ ''-'' @ d2"
  define n where "n = Suc (length d1) + length d2"
  define start :: byte where "start = word_of_int (digits_val d1)"
  define stop :: byte where "stop = word_of_int (digits_val d2)"
  have dig: "d1 \<noteq> []" "list_all isDigit d1" "d2 \<noteq> []" "list_all isDigit d2"
    using d1 d2 by (simp_all add: wellformed_octet_def)
  have len: "length s = n" by (simp add: s_def n_def)
  have N0: "NextToken (lexer_at s 0) = (token_New NUMBER d1, lexer_at s (length d1))"
    using NextToken_number [of s "[]" d1 "''-'' @ d2"] dig isDigit_not_special [of "CHR ''-''"]
    by (auto simp add: s_def)
  have N1: "NextToken (lexer_at s (length d1)) = (token_New DASH ''-'', lexer_at s (Suc (length d1)))"
    using NextToken_dash [of s d1 d2] by (simp add: s_def)
  have N2: "NextToken (lexer_at s (Suc (length d1))) = (token_New NUMBER d2, lexer_at s n)"
    using NextToken_number [of s "d1 @ ''-''" d2 "[]"] dig by (simp add: s_def n_def)
  have N3: "NextToken (lexer_at s n) = (token_New EOF [], lexer_at s (Suc n))"
    using NextToken_at_end [of s n] len by simp
  have N4: "NextToken (lexer_at s (Suc n)) = (token_New EOF [], lexer_at s (Suc (Suc n)))"
    using NextToken_at_end [of s "Suc n"] len by simp
  define p0 where "p0 = \<lparr>lexer = lexer_at s (Suc (length d1)), errors = [],
    currToken = token_New NUMBER d1, peekToken = token_New DASH ''-''\<rparr>"
  define p1 where "p1 = \<lparr>lexer = lexer_at s n, errors = [],
    currToken = token_New DASH ''-'', peekToken = token_New NUMBER d2\<rparr>"
  define p2 where "p2 = \<lparr>lexer = lexer_at s (Suc n), errors = [],
    currToken = token_New NUMBER d2, peekToken = token_New EOF []\<rparr>"
  define p3 where "p3 = \<lparr>lexer = lexer_at s (Suc (Suc n)), errors = [],
    currToken = token_New EOF [], peekToken = token_New EOF []\<rparr>"
  have new: "parser_New s = p0"
    by (simp add: parser_New_def nextToken_def lexer_New_at N0 N1 p0_def)
  have s01: "nextToken p0 = p1" by (simp add: nextToken_def p0_def p1_def N2)
  have s12: "nextToken p1 = p2" by (simp add: nextToken_def p1_def p2_def N3)
  have s23: "nextToken p2 = p3" by (simp add: nextToken_def p2_def p3_def N4)
  have c0: "currToken p0 = token_New NUMBER d1" by (simp add: p0_def)
  have c2: "currToken p2 = token_New NUMBER d2" by (simp add: p2_def)
  have n1: "parseNumber p0 = (start, True, p1)"
    using parseNumber_octet [OF c0 d1] by (simp add: s01 start_def)
  have n2: "parseNumber p2 = (stop, True, p3)"
    using parseNumber_octet [OF c2 d2] by (simp add: s23 stop_def)
  have a0: "\<not> currTokenIs p0 ASTERISK" "\<not> currTokenIs p0 EOF"
    by (simp_all add: currTokenIs_def p0_def token_New_def NUMBER_def ASTERISK_def EOF_def)
  have a1: "currTokenIs p1 DASH"
    by (simp add: currTokenIs_def p1_def token_New_def)
  have a3: "currTokenIs p3 EOF" "peekTokenIs p3 EOF"
    by (simp_all add: currTokenIs_def peekTokenIs_def p3_def token_New_def)
  have tm: "parseTerm p0 = ((start, stop), True, p3)"
    by (simp add: parseTerm_def a0 a1 n1 n2 s12)
  have "parseExpr_loop p3 [(start, stop)] = ([(start, stop)], True, p3)"
    by (simp add: parseExpr_loop.simps [of p3] a3)
  then have "parseExpr_loop p0 [] = ([(start, stop)], True, p3)"
    by (simp add: parseExpr_loop.simps [of p0] a0 a3 tm)
  then have "parser_Parse (parser_New s) = ([(start, stop)], True, p3)"
    by (simp add: parser_Parse_def parseExpr_def new)
  then show "parse_ok (d1 @ ''-'' @ d2)"
    and "parse_intervals (d1 @ ''-'' @ d2) =
           [(word_of_int (digits_val d1), word_of_int (digits_val d2))]"
    and "parse_errors (d1 @ ''-'' @ d2) = []"
    by (simp_all add: parse_ok_def parse_intervals_def parse_errors_def s_def start_def stop_def p3_def)
qed

lemma byte_of_int_le:
  "0 \<le> a \<Longrightarrow> a \<le> 255 \<Longrightarrow> 0 \<le> b \<Longrightarrow> b \<le> 255 \<Longrightarrow>
   (word_of_int a :: byte) \<le> word_of_int b \<longleftrightarrow> a \<le> b"
  by (simp add: word_le_def uint_word_of_int)

lemma Test_reversed_empty:
  assumes "0 \<le> b" "b < a" "a \<le> 255"
  shows "\<not> Test (bitsvector_New [(word_of_int a, word_of_int b)]) v"
proof -
  have lt: "\<not> (word_of_int a :: byte) \<le> word_of_int b"
    using assms by (simp add: byte_of_int_le)
  then have "[(word_of_int a :: byte, word_of_int b :: byte)] \<noteq> [(255, 255)]" by auto
  then have "Test (bitsvector_New [(word_of_int a, word_of_int b)]) v \<longleftrightarrow>
             (word_of_int a :: byte) \<le> v \<and> v \<le> word_of_int b"
    by (simp add: Test_New_general)
  with lt show ?thesis by auto
qed

lemma Generate_nothing: "Generate fuel ie = Some []"
  by (simp add: Generate_def Generate_loop.simps [of fuel ie "[0, 0, 0, 0]" 0])

section \<open>The claims\<close>

text \<open>
  C1 at the pattern \<open>10.0.1,3,5.1\<close>: it compiles, the three addresses of the claim match
  it, and the enumeration is empty.
\<close>

theorem C1_Generate_empty_on_pattern:
  "(case ipexpr_Parse ''10.0.1,3,5.1'' of
      Inl e \<Rightarrow> False
    | Inr ie \<Rightarrow>
        Generate 1 ie = Some []
        \<and> Matches ie ''10.0.1.1'' = Inr True
        \<and> Matches ie ''10.0.3.1'' = Inr True
        \<and> Matches ie ''10.0.5.1'' = Inr True)"
  by code_simp

text \<open>
  C2, as the code has it. For an accepted octet-expression, a byte is a member of the set
  built from the parsed intervals exactly when it lies in one of them, unless the parsed
  list is the single interval \<open>{255, 255}\<close>: then every byte is a member.
\<close>

theorem C2_Test_iff_in_interval:
  assumes "parse_ok s"
  shows "Test (bitsvector_New (parse_intervals s)) v \<longleftrightarrow>
           parse_intervals s = [(255, 255)]
           \<or> (\<exists>it \<in> set (parse_intervals s). fst it \<le> v \<and> v \<le> snd it)"
proof (cases "parse_intervals s = [(255, 255)]")
  case True
  then show ?thesis by (simp add: New_sentinel Test_AllSet)
next
  case False
  then show ?thesis by (simp add: Test_New_general)
qed

lemma parse_example: "parse_ok ''1-3,9'' \<and> parse_intervals ''1-3,9'' = [(1, 3), (9, 9)]"
  unfolding parse_ok_def parse_intervals_def by code_simp

theorem C2_Test_witness:
  "parse_ok ''1-3,9''
   \<and> (Test (bitsvector_New (parse_intervals ''1-3,9'')) 2 \<longleftrightarrow>
        parse_intervals ''1-3,9'' = [(255, 255)]
        \<or> (\<exists>it \<in> set (parse_intervals ''1-3,9''). fst it \<le> 2 \<and> 2 \<le> snd it))"
  using C2_Test_iff_in_interval [of "''1-3,9''" 2] parse_example by blast

text \<open>
  C2 as stated fails at the accepted expression \<open>255\<close>: its only interval is \<open>[255, 255]\<close>,
  the byte 0 lies outside it, and the test of 0 is true.
\<close>

theorem C2_counterexample:
  "parse_ok ''255'' \<and> parse_intervals ''255'' = [(255, 255)]
   \<and> \<not> ((255 :: byte) \<le> 0 \<and> (0 :: byte) \<le> 255)
   \<and> Test (bitsvector_New (parse_intervals ''255'')) 0"
  unfolding parse_ok_def parse_intervals_def by code_simp

text \<open>
  C3. When the interval list is exactly the one element \<open>{255, 255}\<close>, the builder returns
  the constant \<open>AllSet\<close>, whose test is true for every byte. For every other list the set is
  built from the all-zero array by the two loops, and then a byte is a member exactly when
  some interval \<open>{low, high}\<close> of the list has \<open>low \<le> v \<le> high\<close> (an interval with
  \<open>low > high\<close> adds nothing).
\<close>

theorem C3_New_sentinel_or_built:
  "bitsvector_New [(255, 255)] = AllSet
   \<and> (\<forall>v. Test (bitsvector_New [(255, 255)]) v)
   \<and> (its \<noteq> [(255, 255)] \<longrightarrow>
        bitsvector_New its = New_loop its (replicate 32 0)
        \<and> (\<forall>v. Test (bitsvector_New its) v \<longleftrightarrow> (\<exists>it \<in> set its. fst it \<le> v \<and> v \<le> snd it)))"
  by (simp add: New_sentinel Test_AllSet New_not_sentinel Test_New_loop Test_zero)

theorem C3_New_witness:
  "[(1, 3), (9, 7)] \<noteq> [(255, 255 :: byte)]
   \<and> bitsvector_New [(1, 3), (9, 7)] = New_loop [(1, 3), (9, 7)] (replicate 32 0)
   \<and> (\<forall>v. Test (bitsvector_New [(1, 3), (9, 7)]) v \<longleftrightarrow>
            (\<exists>it \<in> set [(1, 3), (9, 7)]. fst it \<le> v \<and> v \<le> snd it))"
proof -
  have "[(1, 3), (9, 7)] \<noteq> [(255, 255 :: byte)]" by simp
  with C3_New_sentinel_or_built [of "[(1, 3), (9, 7)]"] show ?thesis by blast
qed

text \<open>
  C4. A term \<open>d1-d2\<close> of two numbers in range parses successfully to the single interval
  \<open>{start, end}\<close> of their values, in whatever order the two values are. When
  \<open>start > end\<close>, the octet set built from the parsed term tests false for every byte.
\<close>

theorem C4_reversed_range_is_empty:
  assumes "wellformed_octet d1" and "wellformed_octet d2"
  shows "parse_ok (d1 @ ''-'' @ d2)
         \<and> parse_intervals (d1 @ ''-'' @ d2) =
             [(word_of_int (digits_val d1), word_of_int (digits_val d2))]
         \<and> (digits_val d2 < digits_val d1 \<longrightarrow>
              (\<forall>v. \<not> Test (bitsvector_New (parse_intervals (d1 @ ''-'' @ d2))) v))"
proof (intro conjI impI allI)
  show "parse_ok (d1 @ ''-'' @ d2)" using assms by (rule Parse_range_term(1))
  show iv: "parse_intervals (d1 @ ''-'' @ d2) =
             [(word_of_int (digits_val d1), word_of_int (digits_val d2))]"
    using assms by (rule Parse_range_term(2))
  fix v
  assume "digits_val d2 < digits_val d1"
  moreover have "0 \<le> digits_val d2" "digits_val d1 \<le> 255"
    using assms by (simp_all add: wellformed_octet_def digits_val_nonneg)
  ultimately show "\<not> Test (bitsvector_New (parse_intervals (d1 @ ''-'' @ d2))) v"
    unfolding iv by (intro Test_reversed_empty)
qed

lemma reversed_example:
  "wellformed_octet ''5''" "wellformed_octet ''3''" "digits_val ''3'' < digits_val ''5''"
  "word_of_int (digits_val ''5'') = (5 :: byte)" "word_of_int (digits_val ''3'') = (3 :: byte)"
  unfolding wellformed_octet_def digits_val_def by code_simp+

theorem C4_reversed_range_witness:
  "wellformed_octet ''5'' \<and> wellformed_octet ''3'' \<and> digits_val ''3'' < digits_val ''5''
   \<and> parse_ok (''5'' @ ''-'' @ ''3'')
   \<and> parse_intervals (''5'' @ ''-'' @ ''3'') = [(5, 3)]
   \<and> (\<forall>v. \<not> Test (bitsvector_New (parse_intervals (''5'' @ ''-'' @ ''3''))) v)"
proof -
  note r = C4_reversed_range_is_empty [OF reversed_example(1) reversed_example(2)]
  from r have a: "parse_ok (''5'' @ ''-'' @ ''3'')" by blast
  from r have "parse_intervals (''5'' @ ''-'' @ ''3'') =
                 [(word_of_int (digits_val ''5''), word_of_int (digits_val ''3''))]" by blast
  then have b: "parse_intervals (''5'' @ ''-'' @ ''3'') = [(5, 3)]"
    by (simp only: reversed_example(4,5))
  from r reversed_example(3)
  have c: "\<forall>v. \<not> Test (bitsvector_New (parse_intervals (''5'' @ ''-'' @ ''3''))) v" by blast
  show ?thesis using a b c reversed_example(1,2,3) by blast
qed

lemma Split_examples:
  "Split ''192.168.1'' = [''192'', ''168'', ''1'']"
  "Split ''192.168.1.256'' = [''192'', ''168'', ''1'', ''256'']"
  by (simp_all add: Split_def)

lemma parse_ok_examples:
  "parse_ok ''192''" "parse_ok ''168''" "parse_ok ''1''" "\<not> parse_ok ''256''"
  unfolding parse_ok_def by code_simp+

text \<open>
  C5. \<open>Parse\<close> splits the pattern on the dot and fails with the invalid-expression error
  whenever that does not give exactly four components; with four components, the first
  one the interval parser rejects makes it fail with the invalid-octet error that carries
  this component. So a compiled pattern comes only from four accepted components.
  \<open>192.168.1\<close> fails in the first way, \<open>192.168.1.256\<close> in the second, citing \<open>256\<close>.
\<close>

theorem C5_Parse_errors:
  "(length (Split expr) \<noteq> 4 \<longrightarrow> ipexpr_Parse expr = Inl (InvalidIPExpression expr))
   \<and> (\<forall>i < 4. length (Split expr) = 4 \<and> \<not> parse_ok (Split expr ! i)
                 \<and> (\<forall>j < i. parse_ok (Split expr ! j)) \<longrightarrow>
          ipexpr_Parse expr = Inl (InvalidOctetFormat (Split expr ! i)))
   \<and> (\<forall>ie. ipexpr_Parse expr = Inr ie \<longrightarrow>
          length (Split expr) = 4 \<and> list_all parse_ok (Split expr))
   \<and> ipexpr_Parse ''192.168.1'' = Inl (InvalidIPExpression ''192.168.1'')
   \<and> ipexpr_Parse ''192.168.1.256'' = Inl (InvalidOctetFormat ''256'')"
proof (intro conjI allI impI)
  assume "length (Split expr) \<noteq> 4"
  then show "ipexpr_Parse expr = Inl (InvalidIPExpression expr)"
    by (simp add: ipexpr_Parse_def)
next
  fix i
  assume "i < 4"
    and h: "length (Split expr) = 4 \<and> \<not> parse_ok (Split expr ! i)
            \<and> (\<forall>j < i. parse_ok (Split expr ! j))"
  then have "parse_parts (Split expr) = Inl (InvalidOctetFormat (Split expr ! i))"
    by (intro parse_parts_first_failure) simp_all
  with h show "ipexpr_Parse expr = Inl (InvalidOctetFormat (Split expr ! i))"
    by (simp add: ipexpr_Parse_def)
next
  fix ie
  assume r: "ipexpr_Parse expr = Inr ie"
  then show len: "length (Split expr) = 4"
    by (auto simp add: ipexpr_Parse_def split: if_splits)
  show "list_all parse_ok (Split expr)"
  proof (rule ccontr)
    assume "\<not> list_all parse_ok (Split expr)"
    then have "\<exists>i. i < length (Split expr) \<and> \<not> parse_ok (Split expr ! i)"
      by (auto simp add: list_all_iff in_set_conv_nth)
    then obtain i where i: "i < length (Split expr) \<and> \<not> parse_ok (Split expr ! i)"
      and least: "\<forall>j < i. \<not> (j < length (Split expr) \<and> \<not> parse_ok (Split expr ! j))"
      using exists_least_iff [of "\<lambda>i. i < length (Split expr) \<and> \<not> parse_ok (Split expr ! i)"]
      by auto
    have "parse_parts (Split expr) = Inl (InvalidOctetFormat (Split expr ! i))"
      using i least by (intro parse_parts_first_failure) auto
    with r len show False by (simp add: ipexpr_Parse_def)
  qed
next
  show "ipexpr_Parse ''192.168.1'' = Inl (InvalidIPExpression ''192.168.1'')"
    by (simp add: ipexpr_Parse_def Split_examples)
next
  have "parse_parts [''192'', ''168'', ''1'', ''256''] = Inl (InvalidOctetFormat ''256'')"
    by (simp add: parseOctet_ok parseOctet_fail parse_ok_examples)
  then show "ipexpr_Parse ''192.168.1.256'' = Inl (InvalidOctetFormat ''256'')"
    by (simp add: ipexpr_Parse_def Split_examples)
qed

theorem C5_Parse_errors_witness:
  "length (Split ''192.168.1'') \<noteq> 4
   \<and> ipexpr_Parse ''192.168.1'' = Inl (InvalidIPExpression ''192.168.1'')
   \<and> length (Split ''192.168.1.256'') = 4
   \<and> \<not> parse_ok (Split ''192.168.1.256'' ! 3)
   \<and> parse_ok (Split ''192.168.1.256'' ! 0)
   \<and> parse_ok (Split ''192.168.1.256'' ! 1)
   \<and> parse_ok (Split ''192.168.1.256'' ! 2)
   \<and> ipexpr_Parse ''192.168.1.256'' = Inl (InvalidOctetFormat (Split ''192.168.1.256'' ! 3))"
proof -
  have a: "length (Split ''192.168.1'') \<noteq> 4" by (simp add: Split_examples)
  have b: "length (Split ''192.168.1.256'') = 4" by (simp add: Split_examples)
  have c: "\<not> parse_ok (Split ''192.168.1.256'' ! 3)"
    by (simp add: Split_examples parse_ok_examples)
  have d: "\<forall>j < 3. parse_ok (Split ''192.168.1.256'' ! j)"
  proof (intro allI impI)
    fix j :: nat
    assume "j < 3"
    then have "j = 0 \<or> j = 1 \<or> j = 2" by arith
    then show "parse_ok (Split ''192.168.1.256'' ! j)"
      by (auto simp add: Split_examples parse_ok_examples)
  qed
  from C5_Parse_errors [of "''192.168.1''"] a
  have e: "ipexpr_Parse ''192.168.1'' = Inl (InvalidIPExpression ''192.168.1'')" by blast
  have "(3::nat) < 4" by simp
  with C5_Parse_errors [of "''192.168.1.256''"] b c d
  have "ipexpr_Parse ''192.168.1.256'' = Inl (InvalidOctetFormat (Split ''192.168.1.256'' ! 3))"
    by blast
  moreover have "parse_ok (Split ''192.168.1.256'' ! 0)" "parse_ok (Split ''192.168.1.256'' ! 1)"
    "parse_ok (Split ''192.168.1.256'' ! 2)"
    using d by simp_all
  ultimately show ?thesis using a b c e by blast
qed

text \<open>
  C6. Whatever the pattern, \<open>Matches\<close> returns an error exactly when the address string is
  not well formed (not four components, or a component that is not a number in range), and
  the error is the same for every pattern. On a well-formed address it returns no error,
  and its answer is true exactly when each of the four octets passes the test of the octet
  set at its position.
\<close>

theorem C6_Matches_error_iff_malformed:
  "((\<exists>e. Matches ie s = Inl e) \<longleftrightarrow> \<not> wellformed_address s)
   \<and> (\<forall>e ie'. Matches ie s = Inl e \<longrightarrow> Matches ie' s = Inl e)
   \<and> (wellformed_address s \<longrightarrow>
        Matches ie s =
          Inr (\<forall>k < 4. Test (octets ie ! k) (word_of_int (digits_val (Split s ! k)))))"
proof (intro conjI allI impI)
  show "(\<exists>e. Matches ie s = Inl e) \<longleftrightarrow> \<not> wellformed_address s"
    by (rule Matches_error_iff)
next
  fix e ie'
  assume "Matches ie s = Inl e"
  then show "Matches ie' s = Inl e" by (rule Matches_error_any_pattern)
next
  assume "wellformed_address s"
  then show "Matches ie s =
          Inr (\<forall>k < 4. Test (octets ie ! k) (word_of_int (digits_val (Split s ! k))))"
    by (rule Matches_wellformed)
qed

lemma wellformed_examples:
  "wellformed_address ''10.0.0.2''" "\<not> wellformed_address ''192.168.1.abc''"
  unfolding wellformed_address_def wellformed_octet_def digits_val_def by code_simp+

lemma Test_examples:
  "Test AllSet (word_of_int (digits_val ''10''))" "Test AllSet (word_of_int (digits_val ''0''))"
  "Test (bitsvector_New [(1, 3)]) (word_of_int (digits_val ''2''))"
  unfolding digits_val_def by code_simp+

theorem C6_Matches_witness:
  "wellformed_address ''10.0.0.2''
   \<and> Matches \<lparr>octets = [AllSet, AllSet, AllSet, bitsvector_New [(1, 3)]]\<rparr> ''10.0.0.2'' = Inr True
   \<and> \<not> wellformed_address ''192.168.1.abc''
   \<and> (\<exists>e. Matches \<lparr>octets = [AllSet, AllSet, AllSet, bitsvector_New [(1, 3)]]\<rparr> ''192.168.1.abc'' = Inl e)"
proof -
  define ie where "ie = \<lparr>octets = [AllSet, AllSet, AllSet, bitsvector_New [(1, 3)]]\<rparr>"
  note good = C6_Matches_error_iff_malformed [of ie "''10.0.0.2''"]
  note bad = C6_Matches_error_iff_malformed [of ie "''192.168.1.abc''"]
  have sp: "Split ''10.0.0.2'' = [''10'', ''0'', ''0'', ''2'']" by (simp add: Split_def)
  have "\<forall>k < 4. Test (octets ie ! k) (word_of_int (digits_val (Split ''10.0.0.2'' ! k)))"
  proof (intro allI impI)
    fix k :: nat
    assume "k < 4"
    then have "k = 0 \<or> k = 1 \<or> k = 2 \<or> k = 3" by arith
    then show "Test (octets ie ! k) (word_of_int (digits_val (Split ''10.0.0.2'' ! k)))"
      by (auto simp add: ie_def sp Test_examples)
  qed
  moreover have "Matches ie ''10.0.0.2'' =
       Inr (\<forall>k < 4. Test (octets ie ! k) (word_of_int (digits_val (Split ''10.0.0.2'' ! k))))"
    using good wellformed_examples(1) by blast
  ultimately have "Matches ie ''10.0.0.2'' = Inr True" by simp
  moreover have "\<exists>e. Matches ie ''192.168.1.abc'' = Inl e"
    using bad wellformed_examples(2) by blast
  ultimately show ?thesis
    unfolding ie_def using wellformed_examples by blast
qed

text \<open>
  C7, as the code has it. For a source string without a zero byte, once a call of
  \<open>NextToken\<close> has returned an EOF token, every later call returns the EOF token with the
  empty literal.
\<close>

theorem C7_EOF_stays:
  assumes "nul \<notin> set s" and "Type (fst (NextToken_nth n (lexer_New s))) = EOF" and "n \<le> m"
  shows "fst (NextToken_nth m (lexer_New s)) = \<lparr>Type = EOF, Literal = []\<rparr>"
  using NextToken_nth_EOF_stays [of s n 0 m] assms
  by (simp add: lexer_New_at token_New_def)

lemma EOF_example:
  "nul \<notin> set ''1 -''" "Type (fst (NextToken_nth 2 (lexer_New ''1 -''))) = EOF"
  by code_simp+

theorem C7_EOF_stays_witness:
  "nul \<notin> set ''1 -'' \<and> Type (fst (NextToken_nth 2 (lexer_New ''1 -''))) = EOF \<and> (2 :: nat) \<le> 5
   \<and> fst (NextToken_nth 5 (lexer_New ''1 -'')) = \<lparr>Type = EOF, Literal = []\<rparr>"
  using C7_EOF_stays [of "''1 -''" 2 5] EOF_example by simp

text \<open>
  C7 as stated fails on a string with a zero byte in it: the lexer reports EOF at the zero
  byte and then goes on reading. On the two bytes \<open>0x00\<close>, \<open>1\<close> the first call returns EOF
  and the second the number \<open>1\<close>.
\<close>

theorem C7_counterexample:
  "Type (fst (NextToken_nth 0 (lexer_New [CHR 0x00, CHR ''1'']))) = EOF
   \<and> Type (fst (NextToken_nth 1 (lexer_New [CHR 0x00, CHR ''1'']))) = NUMBER
   \<and> Literal (fst (NextToken_nth 1 (lexer_New [CHR 0x00, CHR ''1'']))) = ''1''
   \<and> NUMBER \<noteq> EOF"
  by code_simp

text \<open>
  C8. Whatever the pattern, \<open>Generate\<close> yields no element: the counters start at zero and
  the guard of the loop asks for all four to be nonzero, so the body never runs. No fuel
  is used.
\<close>

theorem C8_Generate_yields_nothing: "Generate fuel ie = Some []"
  by (rule Generate_nothing)

text \<open>
  C9. Two adjacent terms without a comma are accepted: \<open>1 2\<close> and \<open>1*\<close> parse
  successfully to both terms' intervals. A failed comma expectation only records a
  diagnostic: \<open>1 2 3\<close> parses successfully to three intervals with the diagnostic about
  the missing comma in the list.
\<close>

theorem C9_adjacent_terms_accepted:
  "parse_ok ''1 2'' \<and> parse_intervals ''1 2'' = [(1, 1), (2, 2)]
   \<and> parse_ok ''1*'' \<and> parse_intervals ''1*'' = [(1, 1), (0, 255)]
   \<and> parse_ok ''1 2 3'' \<and> parse_intervals ''1 2 3'' = [(1, 1), (2, 2), (3, 3)]
   \<and> parse_errors ''1 2 3'' = [''expected current token type is COMMA, found NUMBER'']"
  unfolding parse_ok_def parse_intervals_def parse_errors_def by code_simp

text \<open>
  On \<open>1 2\<close> and \<open>1*\<close> themselves the comma is never asked for, because the token after
  the first term's successor is already EOF: their diagnostics stay empty.
\<close>

lemma adjacent_terms_no_diagnostic: "parse_errors ''1 2'' = [] \<and> parse_errors ''1*'' = []"
  unfolding parse_errors_def by code_simp

lemma ip_Parse_examples:
  "ip_Parse ''192.168.001.001'' = Inr [192, 168, 1, 1]"
  "ip_Parse ''192.168.1.1'' = Inr [192, 168, 1, 1]"
  by code_simp+

text \<open>
  C10. An address whose four components are nonempty strings of decimal digits with
  values up to 255 parses, leading zeros or not, to the four decimal values. So
  \<open>192.168.001.001\<close> and \<open>192.168.1.1\<close> get the same answer from \<open>Matches\<close>.
\<close>

theorem C10_leading_zeros_accepted:
  "(wellformed_octet a \<and> wellformed_octet b \<and> wellformed_octet c \<and> wellformed_octet d \<longrightarrow>
      ip_Parse (a @ ''.'' @ b @ ''.'' @ c @ ''.'' @ d) =
        Inr [word_of_int (digits_val a), word_of_int (digits_val b),
             word_of_int (digits_val c), word_of_int (digits_val d)])
   \<and> Matches ie ''192.168.001.001'' = Matches ie ''192.168.1.1''"
proof (intro conjI impI)
  assume wf: "wellformed_octet a \<and> wellformed_octet b \<and> wellformed_octet c \<and> wellformed_octet d"
  then have "Split (a @ ''.'' @ b @ ''.'' @ c @ ''.'' @ d) = [a, b, c, d]"
    by (intro Split_four) (simp_all add: wellformed_octet_def digits_no_dot)
  with wf show "ip_Parse (a @ ''.'' @ b @ ''.'' @ c @ ''.'' @ d) =
        Inr [word_of_int (digits_val a), word_of_int (digits_val b),
             word_of_int (digits_val c), word_of_int (digits_val d)]"
    by (simp add: ip_Parse_Inr wellformed_address_def)
next
  show "Matches ie ''192.168.001.001'' = Matches ie ''192.168.1.1''"
    by (simp add: Matches_def ip_Parse_examples)
qed

lemma wellformed_octet_examples:
  "wellformed_octet ''192''" "wellformed_octet ''168''" "wellformed_octet ''001''"
  "digits_val ''192'' = 192" "digits_val ''168'' = 168" "digits_val ''001'' = 1"
  unfolding wellformed_octet_def digits_val_def by code_simp+

theorem C10_leading_zeros_witness:
  "wellformed_octet ''192'' \<and> wellformed_octet ''168'' \<and> wellformed_octet ''001''
   \<and> ip_Parse (''192'' @ ''.'' @ ''168'' @ ''.'' @ ''001'' @ ''.'' @ ''001'') = Inr [192, 168, 1, 1]"
  using C10_leading_zeros_accepted [of "''192''" "''168''" "''001''" "''001''"]
        wellformed_octet_examples
  by simp

end
